theory Spec2Isabelle
  imports Complex_Main "HOL-Library.AList"
begin

section \<open>The wire types of \<open>js-pkg/driftdb/src/types.ts\<close>\<close>

text \<open>
  \<open>Key = string\<close> and \<open>SequenceNumber = number\<close>. A TypeScript \<open>number\<close> carries no
  sign or range restriction. The model covers its integer values, of either sign, as
  \<open>int\<close>. The fractional, infinite and not-a-number values that the type \<open>number\<close> has as
  well are outside the model: every statement below about sequence numbers is a statement
  about integer-valued ones and says nothing of the others.
\<close>

type_synonym Key = string
type_synonym SequenceNumber = int

text \<open>
  \<open>Action = {type: 'append' | 'replace' | 'relay'} | {type: 'compact', seq: SequenceNumber}\<close>:
  a union tagged by its \<open>type\<close> field.
\<close>

datatype Action = Append | Replace | Relay | Compact SequenceNumber

fun action_type :: "Action \<Rightarrow> string" where
  "action_type Append = ''append''"
| "action_type Replace = ''replace''"
| "action_type Relay = ''relay''"
| "action_type (Compact s) = ''compact''"

text \<open>\<open>interface SequenceValue { value: any; seq: SequenceNumber }\<close>; the payload type
  \<open>any\<close> is a type parameter.\<close>

record 'v SequenceValue =
  "value" :: 'v
  seq :: SequenceNumber

text \<open>\<open>MessageFromDb\<close>: four variants tagged by \<open>type\<close>, fields in the order of the source.\<close>

datatype 'v MessageFromDb =
    PushFrom Key "'v SequenceValue"
  | InitFrom "'v SequenceValue list" Key
  | ErrorFrom string
  | StreamSize Key int

fun from_type :: "'v MessageFromDb \<Rightarrow> string" where
  "from_type (PushFrom k v) = ''push''"
| "from_type (InitFrom d k) = ''init''"
| "from_type (ErrorFrom m) = ''error''"
| "from_type (StreamSize k n) = ''stream_size''"

fun from_fields :: "'v MessageFromDb \<Rightarrow> string list" where
  "from_fields (PushFrom k v) = [''type'', ''key'', ''value'']"
| "from_fields (InitFrom d k) = [''type'', ''data'', ''key'']"
| "from_fields (ErrorFrom m) = [''type'', ''message'']"
| "from_fields (StreamSize k n) = [''type'', ''key'', ''size'']"

text \<open>\<open>MessageToDb\<close>: \<open>push\<close> with \<open>action: Action\<close>, \<open>value: any\<close>, \<open>key\<close>; \<open>get\<close> with
  \<open>key\<close>, \<open>seq\<close>.\<close>

datatype 'v MessageToDb =
    Push Action 'v Key
  | Get Key SequenceNumber

fun to_type :: "'v MessageToDb \<Rightarrow> string" where
  "to_type (Push a v k) = ''push''"
| "to_type (Get k s) = ''get''"

text \<open>The \<open>action\<close> field, present on \<open>push\<close> only.\<close>

fun to_action :: "'v MessageToDb \<Rightarrow> Action option" where
  "to_action (Push a v k) = Some a"
| "to_action (Get k s) = None"

text \<open>\<open>ConnectionStatus = {connected: false} | {connected: true, debugUrl: string}\<close>.\<close>

datatype ConnectionStatus = Disconnected | Connected string

fun connected :: "ConnectionStatus \<Rightarrow> bool" where
  "connected Disconnected = False"
| "connected (Connected u) = True"

fun debugUrl :: "ConnectionStatus \<Rightarrow> string option" where
  "debugUrl Disconnected = None"
| "debugUrl (Connected u) = Some u"

fun status_fields :: "ConnectionStatus \<Rightarrow> string list" where
  "status_fields Disconnected = [''connected'']"
| "status_fields (Connected u) = [''connected'', ''debugUrl'']"



section \<open>The voxel reducer of \<open>js-pkg/demos/src/pages/voxel.tsx\<close>\<close>

text \<open>
  \<open>interface Voxel { position: Vector3Tuple; color: any; opacity: number }\<close> with
  \<open>Vector3Tuple = [number, number, number]\<close>. Coordinates are integer-valued
  (\<open>getPosition\<close> floors them), the opacity is a real number, and \<open>color: any\<close> is a
  type parameter.
\<close>

type_synonym Vector3Tuple = "int \<times> int \<times> int"

record 'c Voxel =
  position :: Vector3Tuple
  color :: 'c
  opacity :: real

datatype 'c VoxelAction = Add "'c Voxel" | Remove string

text \<open>
  \<open>Record<string, Voxel>\<close>: the own properties of the object in enumeration order
  (the order \<open>Object.entries\<close> returns them in), keys distinct.
\<close>

type_synonym 'c VoxelState = "(string \<times> 'c Voxel) list"

text \<open>
  \<open>String(n)\<close> for an integer-valued number: decimal digits, a leading minus sign. This is
  what JavaScript prints for the integers it represents exactly and prints in full (the
  safe integers, of magnitude below two to the power 53); it rounds or switches to an
  exponent for larger ones, which are outside the model. No statement below depends on
  which string a position is given, only on equal positions being given equal strings.
\<close>

fun show_nat :: "nat \<Rightarrow> string" where
  "show_nat n =
     (if n < 10 then [char_of (48 + n)]
      else show_nat (n div 10) @ [char_of (48 + n mod 10)])"

declare show_nat.simps [simp del]

definition show_int :: "int \<Rightarrow> string" where
  "show_int i = (if i < 0 then CHR ''-'' # show_nat (nat (- i)) else show_nat (nat i))"

text \<open>\<open>Array.prototype.join\<close>: the elements separated by \<open>sep\<close>.\<close>

fun join :: "string \<Rightarrow> string list \<Rightarrow> string" where
  "join sep [] = []"
| "join sep [x] = x"
| "join sep (x # y # ys) = x @ sep @ join sep (y # ys)"

text \<open>\<open>action.voxel.position.join(':')\<close>.\<close>

definition position_key :: "Vector3Tuple \<Rightarrow> string" where
  "position_key p = (case p of (x, y, z) \<Rightarrow> join '':'' [show_int x, show_int y, show_int z])"

text \<open>
  \<open>voxelReducer\<close> on the contents of the state object. \<open>{...state, [key]: voxel}\<close>
  keeps an existing key at its place and puts a new one last; \<open>delete\<close> removes the
  key. The closing \<open>return state\<close> is reached by no value of type \<open>VoxelAction\<close>.
\<close>

fun voxelReducer :: "'c VoxelState \<Rightarrow> 'c VoxelAction \<Rightarrow> 'c VoxelState" where
  "voxelReducer state (Add voxel) =
     (let key = position_key (position voxel) in AList.update key voxel state)"
| "voxelReducer state (Remove name) = AList.delete name state"

text \<open>
  The same function on a store of objects, where a state is a reference: the spread
  \<open>{...state, ...}\<close> allocates a new object, and \<open>delete newState[action.name]\<close>
  mutates the copy that \<open>const newState = { ...state }\<close> has just allocated.
  Addresses are indices into the store; allocation appends.
\<close>

type_synonym addr = nat
type_synonym 'c store = "'c VoxelState list"

definition alloc :: "'c store \<Rightarrow> 'c VoxelState \<Rightarrow> 'c store \<times> addr" where
  "alloc h obj = (h @ [obj], length h)"

fun voxelReducer_store :: "'c store \<Rightarrow> addr \<Rightarrow> 'c VoxelAction \<Rightarrow> 'c store \<times> addr" where
  "voxelReducer_store h state (Add voxel) =
     (let key = position_key (position voxel)
      in alloc h (AList.update key voxel (h ! state)))"
| "voxelReducer_store h state (Remove name) =
     (let (h1, newState) = alloc h (h ! state);
          h2 = h1[newState := AList.delete name (h1 ! newState)]
      in (h2, newState))"

section \<open>The stream registry and reducer engine\<close>

text \<open>
  Modelled from the spec: the client's stream registry (\<open>onInit\<close>, \<open>onPush\<close>) and the
  reducer engine are not among the source files; only the wire types they exchange and
  a caller (\<open>useSharedReducer\<close> in \<open>voxel.tsx\<close>) are. The definitions below follow
  sections 3, 4.3 and 4.4 of the specification.

  A stream holds the highest seen sequence number, the buffer of pending values kept
  in increasing order of \<open>seq\<close>, and the materialized reducer state.
\<close>

record ('s, 'v) Stream =
  highest_seen :: SequenceNumber
  buffer :: "'v SequenceValue list"
  state :: 's

text \<open>
  Modelled from the spec: draining the buffer once a gap is closed, in increasing
  order of \<open>seq\<close>. The head of the buffer is applied when it is the next value, dropped
  when its \<open>seq\<close> has been seen already, and left in place when it is still ahead of a gap.
\<close>

fun drain :: "('s \<Rightarrow> 'v \<Rightarrow> 's) \<Rightarrow> SequenceNumber \<Rightarrow> 's \<Rightarrow> 'v SequenceValue list
    \<Rightarrow> SequenceNumber \<times> 's \<times> 'v SequenceValue list" where
  "drain r h s [] = (h, s, [])"
| "drain r h s (v # vs) =
     (if seq v \<le> h then drain r h s vs
      else if seq v = h + 1 then drain r (h + 1) (r s (value v)) vs
      else (h, s, v # vs))"

text \<open>
  Modelled from the spec: \<open>onPush(key, value)\<close>, by the three cases of section 4.3.
  The result is the stream afterwards and the messages emitted.
\<close>

definition onPush :: "('s \<Rightarrow> 'v \<Rightarrow> 's) \<Rightarrow> Key \<Rightarrow> ('s, 'v) Stream \<Rightarrow> 'v SequenceValue
    \<Rightarrow> ('s, 'v) Stream \<times> 'v MessageToDb list" where
  "onPush r key st v =
     (if seq v = highest_seen st + 1 then
        (case drain r (seq v) (r (state st) (value v)) (buffer st) of
           (h, s, buf) \<Rightarrow> (st\<lparr>highest_seen := h, buffer := buf, state := s\<rparr>, []))
      else if seq v \<le> highest_seen st then (st, [])
      else (st\<lparr>buffer := insort_key seq v (buffer st)\<rparr>, [Get key (highest_seen st + 1)]))"

text \<open>
  Modelled from the spec: \<open>onInit(key, backlog)\<close> replaces the value sequence by the
  backlog, resets the highest seen sequence number (to that of the last backlog entry,
  zero for an empty backlog) and replays the reducer from the initial state.
\<close>

definition onInit :: "('s \<Rightarrow> 'v \<Rightarrow> 's) \<Rightarrow> 's \<Rightarrow> ('s, 'v) Stream \<Rightarrow> 'v SequenceValue list
    \<Rightarrow> ('s, 'v) Stream" where
  "onInit r s0 st backlog =
     st\<lparr>highest_seen := (if backlog = [] then 0 else seq (last backlog)),
        state := foldl r s0 (map value backlog)\<rparr>"

text \<open>
  Modelled from the spec: incoming values for a key are processed one at a time in
  receipt order; the emitted messages are collected.
\<close>

fun onPushes :: "('s \<Rightarrow> 'v \<Rightarrow> 's) \<Rightarrow> Key \<Rightarrow> ('s, 'v) Stream \<Rightarrow> 'v SequenceValue list
    \<Rightarrow> ('s, 'v) Stream \<times> 'v MessageToDb list" where
  "onPushes r key st [] = (st, [])"
| "onPushes r key st (v # vs) =
     (case onPush r key st v of
        (st1, out1) \<Rightarrow> (case onPushes r key st1 vs of (st2, out2) \<Rightarrow> (st2, out1 @ out2)))"

section \<open>Lemmas on the voxel reducer\<close>

text \<open>The store-level reducer returns a reference to an object whose contents are what
  \<open>voxelReducer\<close> computes from the contents of the state it was given.\<close>

lemma voxelReducer_store_result:
  "fst (voxelReducer_store h p a) ! snd (voxelReducer_store h p a) = voxelReducer (h ! p) a"
  by (cases a) (simp_all add: alloc_def Let_def)

text \<open>It leaves every object that was in the store as it was.\<close>

lemma voxelReducer_store_frame:
  "take (length h) (fst (voxelReducer_store h p a)) = h"
  by (cases a) (simp_all add: alloc_def Let_def)

text \<open>The keys of a state stay distinct, as the own properties of an object are.\<close>

lemma voxelReducer_distinct:
  "distinct (map fst s) \<Longrightarrow> distinct (map fst (voxelReducer s a))"
  by (cases a) (simp_all add: Let_def AList.distinct_update AList.distinct_delete)

section \<open>Lemmas on the stream registry\<close>

text \<open>
  What \<open>drain\<close> applies is a list \<open>ds\<close> of buffered values whose sequence numbers count
  up from \<open>h + 1\<close> without a gap; the state is folded over exactly these, in this order.
\<close>

lemma drain_applies:
  "\<exists>ds rest. drain r h s buf = (h + int (length ds), foldl r s (map value ds), rest)
     \<and> map seq ds = [h + 1 .. h + int (length ds)]
     \<and> set ds \<subseteq> set buf \<and> set rest \<subseteq> set buf"
proof (induction buf arbitrary: h s)
  case Nil
  show ?case by (rule exI [of _ "[]"]) simp
next
  case (Cons v vs)
  consider (stale) "seq v \<le> h" | (succ) "seq v = h + 1" | (ahead) "h + 1 < seq v"
    by linarith
  then show ?case
  proof cases
    case stale
    from Cons.IH [of h s] obtain ds rest where
      "drain r h s vs = (h + int (length ds), foldl r s (map value ds), rest)"
      "map seq ds = [h + 1 .. h + int (length ds)]" "set ds \<subseteq> set vs" "set rest \<subseteq> set vs"
      by blast
    with stale show ?thesis
      by (intro exI [of _ ds] exI [of _ rest]) auto
  next
    case succ
    from Cons.IH [of "h + 1" "r s (value v)"] obtain ds rest where d:
      "drain r (h + 1) (r s (value v)) vs
         = (h + 1 + int (length ds), foldl r (r s (value v)) (map value ds), rest)"
      "map seq ds = [h + 1 + 1 .. h + 1 + int (length ds)]" "set ds \<subseteq> set vs" "set rest \<subseteq> set vs"
      by blast
    have len: "h + int (length (v # ds)) = h + 1 + int (length ds)"
      by simp
    have "[h + 1 .. h + 1 + int (length ds)] = (h + 1) # [h + 1 + 1 .. h + 1 + int (length ds)]"
      by (rule upto_rec1) simp
    with succ d have
      "drain r h s (v # vs) = (h + int (length (v # ds)), foldl r s (map value (v # ds)), rest)"
      "map seq (v # ds) = [h + 1 .. h + int (length (v # ds))]"
      "set (v # ds) \<subseteq> set (v # vs)" "set rest \<subseteq> set (v # vs)"
      unfolding len by auto
    then show ?thesis
      by blast
  next
    case ahead
    then show ?thesis
      by (intro exI [of _ "[]"] exI [of _ "v # vs"]) auto
  qed
qed

text \<open>After draining a sorted buffer, whatever remains is ahead of a gap.\<close>

lemma drain_rest:
  "sorted (map seq buf) \<Longrightarrow> drain r h s buf = (h', s', rest)
     \<Longrightarrow> sorted (map seq rest) \<and> (\<forall>x\<in>set rest. h' + 1 < seq x)"
proof (induction buf arbitrary: h s)
  case Nil
  then show ?case by simp
next
  case (Cons v vs)
  from Cons.prems(1) have vs: "sorted (map seq vs)" and le: "\<forall>x\<in>set vs. seq v \<le> seq x"
    by simp_all
  consider (stale) "seq v \<le> h" | (succ) "seq v = h + 1" | (ahead) "h + 1 < seq v"
    by linarith
  then show ?case
  proof cases
    case stale
    with Cons.prems(2) have "drain r h s vs = (h', s', rest)" by simp
    with Cons.IH vs show ?thesis by blast
  next
    case succ
    with Cons.prems(2) have "drain r (h + 1) (r s (value v)) vs = (h', s', rest)" by simp
    with Cons.IH vs show ?thesis by blast
  next
    case ahead
    with Cons.prems(2) have "h' = h" "rest = v # vs" by simp_all
    with ahead Cons.prems(1) le show ?thesis by fastforce
  qed
qed

text \<open>The three cases of \<open>onPush\<close>.\<close>

lemma onPush_next:
  assumes "seq v = highest_seen st + 1"
  shows "\<exists>ds rest.
      onPush r key st v =
        (st\<lparr>highest_seen := highest_seen st + 1 + int (length ds), buffer := rest,
            state := foldl r (state st) (map value (v # ds))\<rparr>, [])
      \<and> map seq (v # ds) = [highest_seen st + 1 .. highest_seen st + 1 + int (length ds)]
      \<and> set ds \<subseteq> set (buffer st) \<and> set rest \<subseteq> set (buffer st)"
proof -
  from drain_applies [of r "seq v" "r (state st) (value v)" "buffer st"]
  obtain ds rest where d:
    "drain r (seq v) (r (state st) (value v)) (buffer st)
       = (seq v + int (length ds), foldl r (r (state st) (value v)) (map value ds), rest)"
    "map seq ds = [seq v + 1 .. seq v + int (length ds)]"
    "set ds \<subseteq> set (buffer st)" "set rest \<subseteq> set (buffer st)"
    by blast
  have "[seq v .. seq v + int (length ds)] = seq v # [seq v + 1 .. seq v + int (length ds)]"
    by (rule upto_rec1) simp
  with d assms show ?thesis
    by (intro exI [of _ ds] exI [of _ rest]) (simp add: onPush_def)
qed

lemma onPush_stale: "seq v \<le> highest_seen st \<Longrightarrow> onPush r key st v = (st, [])"
  by (simp add: onPush_def)

lemma onPush_ahead:
  "highest_seen st + 1 < seq v \<Longrightarrow>
     onPush r key st v =
       (st\<lparr>buffer := insort_key seq v (buffer st)\<rparr>, [Get key (highest_seen st + 1)])"
  by (simp add: onPush_def)

text \<open>
  In every case the values applied by one push form a list \<open>log\<close> whose sequence numbers
  are exactly those from the old to the new highest seen one.
\<close>

lemma onPush_log:
  "\<exists>log. state (fst (onPush r key st v)) = foldl r (state st) (map value log)
     \<and> map seq log = [highest_seen st + 1 .. highest_seen (fst (onPush r key st v))]
     \<and> highest_seen st \<le> highest_seen (fst (onPush r key st v))
     \<and> set log \<subseteq> insert v (set (buffer st))
     \<and> set (buffer (fst (onPush r key st v))) \<subseteq> insert v (set (buffer st))"
proof -
  consider (stale) "seq v \<le> highest_seen st" | (succ) "seq v = highest_seen st + 1"
    | (ahead) "highest_seen st + 1 < seq v"
    by linarith
  then show ?thesis
  proof cases
    case stale
    then show ?thesis
      by (intro exI [of _ "[]"]) (auto simp: onPush_stale)
  next
    case succ
    from onPush_next [OF succ, of r key] obtain ds rest where
      "onPush r key st v =
        (st\<lparr>highest_seen := highest_seen st + 1 + int (length ds), buffer := rest,
            state := foldl r (state st) (map value (v # ds))\<rparr>, [])"
      "map seq (v # ds) = [highest_seen st + 1 .. highest_seen st + 1 + int (length ds)]"
      "set ds \<subseteq> set (buffer st)" "set rest \<subseteq> set (buffer st)"
      by blast
    then show ?thesis
      by (intro exI [of _ "v # ds"]) auto
  next
    case ahead
    then show ?thesis
      by (intro exI [of _ "[]"]) (auto simp: onPush_ahead set_insort_key)
  qed
qed

text \<open>The same over a whole run of pushes.\<close>

lemma onPushes_log:
  "\<exists>log. state (fst (onPushes r key st vs)) = foldl r (state st) (map value log)
     \<and> map seq log = [highest_seen st + 1 .. highest_seen (fst (onPushes r key st vs))]
     \<and> highest_seen st \<le> highest_seen (fst (onPushes r key st vs))
     \<and> set log \<subseteq> set (buffer st) \<union> set vs
     \<and> set (buffer (fst (onPushes r key st vs))) \<subseteq> set (buffer st) \<union> set vs"
proof (induction vs arbitrary: st)
  case Nil
  show ?case by (intro exI [of _ "[]"]) simp
next
  case (Cons v vs)
  obtain st1 out1 where p: "onPush r key st v = (st1, out1)"
    by (cases "onPush r key st v")
  obtain st2 out2 where q: "onPushes r key st1 vs = (st2, out2)"
    by (cases "onPushes r key st1 vs")
  from onPush_log [of r key st v] p obtain l1 where l1:
    "state st1 = foldl r (state st) (map value l1)"
    "map seq l1 = [highest_seen st + 1 .. highest_seen st1]"
    "highest_seen st \<le> highest_seen st1"
    "set l1 \<subseteq> insert v (set (buffer st))"
    "set (buffer st1) \<subseteq> insert v (set (buffer st))"
    by auto
  from Cons.IH [of st1] q obtain l2 where l2:
    "state st2 = foldl r (state st1) (map value l2)"
    "map seq l2 = [highest_seen st1 + 1 .. highest_seen st2]"
    "highest_seen st1 \<le> highest_seen st2"
    "set l2 \<subseteq> set (buffer st1) \<union> set vs"
    "set (buffer st2) \<subseteq> set (buffer st1) \<union> set vs"
    by auto
  have "[highest_seen st + 1 .. highest_seen st2]
      = [highest_seen st + 1 .. highest_seen st1 + 1 - 1] @ [highest_seen st1 + 1 .. highest_seen st2]"
  proof (cases "highest_seen st1 = highest_seen st2")
    case True
    then show ?thesis by simp
  next
    case False
    with l2(3) have "highest_seen st1 + 1 \<le> highest_seen st2" by simp
    moreover from l1(3) have "highest_seen st + 1 \<le> highest_seen st1 + 1" by simp
    ultimately show ?thesis by (rule upto_split1 [rotated])
  qed
  then have "map seq (l1 @ l2) = [highest_seen st + 1 .. highest_seen st2]"
    using l1(2) l2(2) by simp
  moreover have "state st2 = foldl r (state st) (map value (l1 @ l2))"
    using l1(1) l2(1) by simp
  moreover have "set (l1 @ l2) \<subseteq> set (buffer st) \<union> set (v # vs)"
    using l1(4,5) l2(4) by auto
  moreover have "set (buffer st2) \<subseteq> set (buffer st) \<union> set (v # vs)"
    using l1(5) l2(5) by auto
  moreover have "highest_seen st \<le> highest_seen st2"
    using l1(3) l2(3) by simp
  ultimately show ?case
    using p q by (intro exI [of _ "l1 @ l2"]) simp
qed

text \<open>A sorted buffer that lies ahead of a gap stays so.\<close>

lemma onPush_buffer_ahead:
  assumes "sorted (map seq (buffer st))"
    and "\<forall>x\<in>set (buffer st). highest_seen st + 1 < seq x"
  shows "sorted (map seq (buffer (fst (onPush r key st v))))
     \<and> (\<forall>x\<in>set (buffer (fst (onPush r key st v))).
           highest_seen (fst (onPush r key st v)) + 1 < seq x)"
proof -
  consider (stale) "seq v \<le> highest_seen st" | (succ) "seq v = highest_seen st + 1"
    | (ahead) "highest_seen st + 1 < seq v"
    by linarith
  then show ?thesis
  proof cases
    case stale
    with assms show ?thesis by (simp add: onPush_stale)
  next
    case succ
    obtain h s rest where d:
      "drain r (seq v) (r (state st) (value v)) (buffer st) = (h, s, rest)"
      by (cases "drain r (seq v) (r (state st) (value v)) (buffer st)")
    from drain_rest [OF assms(1) d] succ d show ?thesis
      by (simp add: onPush_def)
  next
    case ahead
    with assms show ?thesis
      by (simp add: onPush_ahead sorted_insort_key set_insort_key)
  qed
qed

text \<open>Pushes that carry nothing new change nothing.\<close>

lemma onPushes_stale:
  "\<forall>v\<in>set vs. seq v \<le> highest_seen st \<Longrightarrow> onPushes r key st vs = (st, [])"
  by (induction vs) (simp_all add: onPush_stale)

lemma seq_le_last:
  "sorted (map seq b) \<Longrightarrow> v \<in> set b \<Longrightarrow> seq v \<le> seq (last b)"
  by (induction b) auto

text \<open>
  Draining loses nothing: the highest seen sequence number does not decrease, and every
  buffered value is still buffered afterwards unless its sequence number has been seen.
\<close>

lemma drain_keeps:
  "drain r h s buf = (h', s', rest) \<Longrightarrow> h \<le> h' \<and> (\<forall>x\<in>set buf. seq x \<le> h' \<or> x \<in> set rest)"
proof (induction buf arbitrary: h s)
  case Nil
  then show ?case by simp
next
  case (Cons v vs)
  consider (stale) "seq v \<le> h" | (succ) "seq v = h + 1" | (ahead) "h + 1 < seq v"
    by linarith
  then show ?case
  proof cases
    case stale
    with Cons.prems have "drain r h s vs = (h', s', rest)" by simp
    from Cons.IH [OF this] stale show ?thesis by auto
  next
    case succ
    with Cons.prems have "drain r (h + 1) (r s (value v)) vs = (h', s', rest)" by simp
    from Cons.IH [OF this] succ show ?thesis by auto
  next
    case ahead
    with Cons.prems show ?thesis by auto
  qed
qed

lemma onPush_keeps:
  "highest_seen st \<le> highest_seen (fst (onPush r key st v))
   \<and> (\<forall>x\<in>insert v (set (buffer st)).
        seq x \<le> highest_seen (fst (onPush r key st v)) \<or> x \<in> set (buffer (fst (onPush r key st v))))"
proof -
  consider (stale) "seq v \<le> highest_seen st" | (succ) "seq v = highest_seen st + 1"
    | (ahead) "highest_seen st + 1 < seq v"
    by linarith
  then show ?thesis
  proof cases
    case stale
    then show ?thesis by (simp add: onPush_stale)
  next
    case succ
    obtain h s rest where d:
      "drain r (seq v) (r (state st) (value v)) (buffer st) = (h, s, rest)"
      by (cases "drain r (seq v) (r (state st) (value v)) (buffer st)")
    from drain_keeps [OF d] succ d show ?thesis
      by (simp add: onPush_def)
  next
    case ahead
    then show ?thesis by (simp add: onPush_ahead set_insort_key)
  qed
qed

lemma onPushes_keeps:
  "highest_seen st \<le> highest_seen (fst (onPushes r key st vs))
   \<and> (\<forall>x\<in>set (buffer st) \<union> set vs.
        seq x \<le> highest_seen (fst (onPushes r key st vs))
        \<or> x \<in> set (buffer (fst (onPushes r key st vs))))"
proof (induction vs arbitrary: st)
  case Nil
  show ?case by simp
next
  case (Cons v vs)
  obtain st1 out1 where p: "onPush r key st v = (st1, out1)"
    by (cases "onPush r key st v")
  obtain st2 out2 where q: "onPushes r key st1 vs = (st2, out2)"
    by (cases "onPushes r key st1 vs")
  from onPush_keeps [of st r key v] p have one:
    "highest_seen st \<le> highest_seen st1"
    "\<forall>x\<in>insert v (set (buffer st)). seq x \<le> highest_seen st1 \<or> x \<in> set (buffer st1)"
    by simp_all
  from Cons.IH [of st1] q have rest:
    "highest_seen st1 \<le> highest_seen st2"
    "\<forall>x\<in>set (buffer st1) \<union> set vs. seq x \<le> highest_seen st2 \<or> x \<in> set (buffer st2)"
    by simp_all
  have "\<forall>x\<in>set (buffer st) \<union> set (v # vs). seq x \<le> highest_seen st2 \<or> x \<in> set (buffer st2)"
  proof
    fix x assume "x \<in> set (buffer st) \<union> set (v # vs)"
    then consider "x \<in> insert v (set (buffer st))" | "x \<in> set vs" by auto
    then show "seq x \<le> highest_seen st2 \<or> x \<in> set (buffer st2)"
    proof cases
      case 1
      with one(2) have "seq x \<le> highest_seen st1 \<or> x \<in> set (buffer st1)" by blast
      with rest show ?thesis by force
    next
      case 2
      with rest(2) show ?thesis by blast
    qed
  qed
  with one(1) rest(1) p q show ?case by simp
qed

text \<open>The buffer invariant over a run of pushes.\<close>

lemma onPushes_buffer_ahead:
  "sorted (map seq (buffer st)) \<Longrightarrow> \<forall>x\<in>set (buffer st). highest_seen st + 1 < seq x
   \<Longrightarrow> sorted (map seq (buffer (fst (onPushes r key st vs))))
     \<and> (\<forall>x\<in>set (buffer (fst (onPushes r key st vs))).
           highest_seen (fst (onPushes r key st vs)) + 1 < seq x)"
proof (induction vs arbitrary: st)
  case Nil
  then show ?case by simp
next
  case (Cons v vs)
  obtain st1 out1 where p: "onPush r key st v = (st1, out1)"
    by (cases "onPush r key st v")
  obtain st2 out2 where q: "onPushes r key st1 vs = (st2, out2)"
    by (cases "onPushes r key st1 vs")
  from onPush_buffer_ahead [OF Cons.prems, of r key v] p have
    "sorted (map seq (buffer st1))" "\<forall>x\<in>set (buffer st1). highest_seen st1 + 1 < seq x"
    by simp_all
  from Cons.IH [OF this] p q show ?case by simp
qed

text \<open>
  Once every sequence number up to \<open>n\<close> has been delivered, in whatever order, the highest
  seen one has reached \<open>n\<close>.
\<close>

lemma onPushes_complete:
  assumes srt: "sorted (map seq (buffer st))"
    and ahead: "\<forall>x\<in>set (buffer st). highest_seen st + 1 < seq x"
    and all: "set [highest_seen st + 1 .. n] \<subseteq> seq ` (set (buffer st) \<union> set vs)"
  shows "n \<le> highest_seen (fst (onPushes r key st vs))"
proof (rule ccontr)
  let ?st' = "fst (onPushes r key st vs)"
  assume "\<not> n \<le> highest_seen ?st'"
  moreover from onPushes_keeps [of st r key vs] have mono: "highest_seen st \<le> highest_seen ?st'"
    by blast
  ultimately have "highest_seen ?st' + 1 \<in> set [highest_seen st + 1 .. n]"
    by simp
  with all have "highest_seen ?st' + 1 \<in> seq ` (set (buffer st) \<union> set vs)"
    by blast
  then obtain x where x: "x \<in> set (buffer st) \<union> set vs" "seq x = highest_seen ?st' + 1"
    by force
  from onPushes_keeps [of st r key vs] x have "x \<in> set (buffer ?st')"
    by force
  with onPushes_buffer_ahead [OF srt ahead, of r key vs] x(2) show False
    by force
qed

section \<open>The claims\<close>

text \<open>
  C1, as stated: the action of a \<open>push\<close> message to the server is one of \<open>append\<close>,
  \<open>replace\<close>, \<open>relay\<close> and never \<open>compact\<close>. The type \<open>MessageToDb\<close> gives the \<open>push\<close>
  variant the field \<open>action: Action\<close>, and \<open>Action\<close> has the \<open>compact\<close> variant: the
  message below is a \<open>push\<close> whose action is \<open>{type: 'compact', seq: 7}\<close>.
\<close>

theorem push_compact_counterexample:
  "to_type (Push (Compact 7) ''snapshot'' ''voxels'') = ''push''
   \<and> to_action (Push (Compact 7) ''snapshot'' ''voxels'') = Some (Compact 7)
   \<and> action_type (Compact 7) \<notin> {''append'', ''replace'', ''relay''}"
  by simp

text \<open>
  C1, amended: a message to the server is a \<open>get\<close>, which has no action, or a \<open>push\<close>
  whose action is any \<open>Action\<close>: \<open>append\<close>, \<open>replace\<close>, \<open>relay\<close>, or \<open>compact\<close> carrying a
  sequence number. No message from the server has an \<open>action\<close> field, so the \<open>push\<close> to
  the server is the only place of the protocol where a \<open>compact\<close> action occurs.
\<close>

theorem push_action_any:
  "((\<exists>k s. m = Get k s \<and> to_type m = ''get'' \<and> to_action m = None)
    \<or> (\<exists>a v k. m = Push a v k \<and> to_type m = ''push'' \<and> to_action m = Some a
          \<and> (a = Append \<or> a = Replace \<or> a = Relay \<or> (\<exists>s. a = Compact s))
          \<and> action_type a \<in> {''append'', ''replace'', ''relay'', ''compact''}))
   \<and> ''action'' \<notin> set (from_fields m')"
proof -
  have "''action'' \<notin> set (from_fields m')"
    by (cases m') simp_all
  moreover have "action_type a \<in> {''append'', ''replace'', ''relay'', ''compact''}
      \<and> (a = Append \<or> a = Replace \<or> a = Relay \<or> (\<exists>s. a = Compact s))" for a
    by (cases a) simp_all
  ultimately show ?thesis
    by (cases m) simp_all
qed

text \<open>
  C2: \<open>onPush\<close> splits on the sequence number of the pushed value \<open>v\<close> against the
  highest seen one.
  \<^item> When it is the next one, \<open>v\<close> is applied, followed by buffered values \<open>ds\<close> whose
    sequence numbers continue without a gap up to the new highest seen one, which has
    advanced; nothing is emitted.
  \<^item> When it is at most the highest seen one, the stream is unchanged and nothing is
    emitted.
  \<^item> When it is beyond the next one, the state and the highest seen sequence number are
    unchanged, \<open>v\<close> is added to the buffer and \<open>get(key, highest_seen + 1)\<close> is emitted.
  \<^item> A sorted buffer whose values all lie ahead of the gap stays so: a value leaves the
    buffer to be applied only once every sequence number before it has been applied.
  \<^item> Over any run of pushes \<open>vs\<close>, the state is the fold of the reducer over a list \<open>log\<close>
    of values whose sequence numbers are exactly those from the old highest seen one
    (exclusive) to the new one, in increasing order: each is applied once.
  \<^item> Once the values delivered cover every sequence number up to \<open>n\<close>, in whatever order
    they came, the highest seen one has reached \<open>n\<close>: the buffered values have been applied.
\<close>

theorem onPush_case_split:
  "(seq v = highest_seen st + 1 \<longrightarrow>
      (\<exists>ds. set ds \<subseteq> set (buffer st)
         \<and> map seq (v # ds) = [highest_seen st + 1 .. highest_seen (fst (onPush r key st v))]
         \<and> state (fst (onPush r key st v)) = foldl r (state st) (map value (v # ds))
         \<and> highest_seen st < highest_seen (fst (onPush r key st v))
         \<and> set (buffer (fst (onPush r key st v))) \<subseteq> set (buffer st)
         \<and> snd (onPush r key st v) = []))
   \<and> (seq v \<le> highest_seen st \<longrightarrow> onPush r key st v = (st, []))
   \<and> (highest_seen st + 1 < seq v \<longrightarrow>
        state (fst (onPush r key st v)) = state st
        \<and> highest_seen (fst (onPush r key st v)) = highest_seen st
        \<and> set (buffer (fst (onPush r key st v))) = insert v (set (buffer st))
        \<and> snd (onPush r key st v) = [Get key (highest_seen st + 1)])
   \<and> (sorted (map seq (buffer st)) \<and> (\<forall>x\<in>set (buffer st). highest_seen st + 1 < seq x) \<longrightarrow>
        sorted (map seq (buffer (fst (onPush r key st v))))
        \<and> (\<forall>x\<in>set (buffer (fst (onPush r key st v))).
              highest_seen (fst (onPush r key st v)) + 1 < seq x))
   \<and> (\<exists>log. state (fst (onPushes r key st vs)) = foldl r (state st) (map value log)
        \<and> map seq log = [highest_seen st + 1 .. highest_seen (fst (onPushes r key st vs))]
        \<and> set log \<subseteq> set (buffer st) \<union> set vs)
   \<and> (sorted (map seq (buffer st)) \<and> (\<forall>x\<in>set (buffer st). highest_seen st + 1 < seq x)
        \<and> set [highest_seen st + 1 .. n] \<subseteq> seq ` (set (buffer st) \<union> set vs) \<longrightarrow>
        n \<le> highest_seen (fst (onPushes r key st vs)))"
proof -
  have a: "\<exists>ds. set ds \<subseteq> set (buffer st)
         \<and> map seq (v # ds) = [highest_seen st + 1 .. highest_seen (fst (onPush r key st v))]
         \<and> state (fst (onPush r key st v)) = foldl r (state st) (map value (v # ds))
         \<and> highest_seen st < highest_seen (fst (onPush r key st v))
         \<and> set (buffer (fst (onPush r key st v))) \<subseteq> set (buffer st)
         \<and> snd (onPush r key st v) = []"
    if succ: "seq v = highest_seen st + 1"
  proof -
    from onPush_next [OF succ, of r key] obtain ds rest where p:
      "onPush r key st v =
        (st\<lparr>highest_seen := highest_seen st + 1 + int (length ds), buffer := rest,
            state := foldl r (state st) (map value (v # ds))\<rparr>, [])"
      "map seq (v # ds) = [highest_seen st + 1 .. highest_seen st + 1 + int (length ds)]"
      "set ds \<subseteq> set (buffer st)" "set rest \<subseteq> set (buffer st)"
      by blast
    then show ?thesis
      by (intro exI [of _ ds]) simp
  qed
  have b: "onPush r key st v = (st, [])" if "seq v \<le> highest_seen st"
    using that by (rule onPush_stale)
  have c: "state (fst (onPush r key st v)) = state st
        \<and> highest_seen (fst (onPush r key st v)) = highest_seen st
        \<and> set (buffer (fst (onPush r key st v))) = insert v (set (buffer st))
        \<and> snd (onPush r key st v) = [Get key (highest_seen st + 1)]"
    if "highest_seen st + 1 < seq v"
    using that by (simp add: onPush_ahead set_insort_key)
  have d: "sorted (map seq (buffer (fst (onPush r key st v))))
        \<and> (\<forall>x\<in>set (buffer (fst (onPush r key st v))).
              highest_seen (fst (onPush r key st v)) + 1 < seq x)"
    if "sorted (map seq (buffer st)) \<and> (\<forall>x\<in>set (buffer st). highest_seen st + 1 < seq x)"
    using that onPush_buffer_ahead [of st r key v] by blast
  have e: "\<exists>log. state (fst (onPushes r key st vs)) = foldl r (state st) (map value log)
        \<and> map seq log = [highest_seen st + 1 .. highest_seen (fst (onPushes r key st vs))]
        \<and> set log \<subseteq> set (buffer st) \<union> set vs"
    using onPushes_log [of r key st vs] by blast
  have f: "n \<le> highest_seen (fst (onPushes r key st vs))"
    if "sorted (map seq (buffer st)) \<and> (\<forall>x\<in>set (buffer st). highest_seen st + 1 < seq x)
        \<and> set [highest_seen st + 1 .. n] \<subseteq> seq ` (set (buffer st) \<union> set vs)"
    using that onPushes_complete [of st n vs r key] by blast
  from a b c d e f show ?thesis
    by blast
qed

text \<open>
  The three cases at concrete streams, with the reducer that appends each applied value
  to a log, and the run of the specification's gap-recovery example: pushes with sequence
  numbers 1, 2, 3, then 6, then 4 and 5.
\<close>

theorem onPush_case_split_witness:
  "highest_seen \<lparr>highest_seen = 3, buffer = [], state = [''a'', ''b'', ''c'']\<rparr> + 1
     < seq \<lparr>value = ''f'', seq = 6\<rparr>
   \<and> onPush (\<lambda>log x. log @ [x]) ''voxels''
        \<lparr>highest_seen = 3, buffer = [], state = [''a'', ''b'', ''c'']\<rparr> \<lparr>value = ''f'', seq = 6\<rparr>
      = (\<lparr>highest_seen = 3, buffer = [\<lparr>value = ''f'', seq = 6\<rparr>], state = [''a'', ''b'', ''c'']\<rparr>,
         [Get ''voxels'' 4])
   \<and> seq \<lparr>value = ''e'', seq = 5\<rparr>
      = highest_seen \<lparr>highest_seen = 4, buffer = [\<lparr>value = ''f'', seq = 6\<rparr>],
          state = [''a'', ''b'', ''c'', ''d'']\<rparr> + 1
   \<and> sorted (map seq (buffer \<lparr>highest_seen = 4, buffer = [\<lparr>value = ''f'', seq = 6\<rparr>],
          state = [''a'', ''b'', ''c'', ''d'']\<rparr>))
   \<and> highest_seen \<lparr>highest_seen = 4, buffer = [\<lparr>value = ''f'', seq = 6\<rparr>],
          state = [''a'', ''b'', ''c'', ''d'']\<rparr> + 1 < seq \<lparr>value = ''f'', seq = 6\<rparr>
   \<and> onPush (\<lambda>log x. log @ [x]) ''voxels''
        \<lparr>highest_seen = 4, buffer = [\<lparr>value = ''f'', seq = 6\<rparr>],
           state = [''a'', ''b'', ''c'', ''d'']\<rparr> \<lparr>value = ''e'', seq = 5\<rparr>
      = (\<lparr>highest_seen = 6, buffer = [], state = [''a'', ''b'', ''c'', ''d'', ''e'', ''f'']\<rparr>, [])
   \<and> seq \<lparr>value = ''b'', seq = 2\<rparr>
      \<le> highest_seen \<lparr>highest_seen = 3, buffer = [], state = [''a'', ''b'', ''c'']\<rparr>
   \<and> onPush (\<lambda>log x. log @ [x]) ''voxels''
        \<lparr>highest_seen = 3, buffer = [], state = [''a'', ''b'', ''c'']\<rparr> \<lparr>value = ''b'', seq = 2\<rparr>
      = (\<lparr>highest_seen = 3, buffer = [], state = [''a'', ''b'', ''c'']\<rparr>, [])
   \<and> set [0 + 1 .. 6]
      \<subseteq> seq ` set [\<lparr>value = ''a'', seq = 1\<rparr>, \<lparr>value = ''b'', seq = 2\<rparr>, \<lparr>value = ''c'', seq = 3\<rparr>,
         \<lparr>value = ''f'', seq = 6\<rparr>, \<lparr>value = ''d'', seq = 4\<rparr>, \<lparr>value = ''e'', seq = 5\<rparr>]
   \<and> onPushes (\<lambda>log x. log @ [x]) ''voxels'' \<lparr>highest_seen = 0, buffer = [], state = []\<rparr>
        [\<lparr>value = ''a'', seq = 1\<rparr>, \<lparr>value = ''b'', seq = 2\<rparr>, \<lparr>value = ''c'', seq = 3\<rparr>,
         \<lparr>value = ''f'', seq = 6\<rparr>, \<lparr>value = ''d'', seq = 4\<rparr>, \<lparr>value = ''e'', seq = 5\<rparr>]
      = (\<lparr>highest_seen = 6, buffer = [], state = [''a'', ''b'', ''c'', ''d'', ''e'', ''f'']\<rparr>,
         [Get ''voxels'' 4])"
proof -
  have all: "set [0 + 1 .. 6]
      \<subseteq> seq ` set [\<lparr>value = ''a'', seq = 1\<rparr>, \<lparr>value = ''b'', seq = 2\<rparr>, \<lparr>value = ''c'', seq = 3\<rparr>,
         \<lparr>value = ''f'', seq = 6\<rparr>, \<lparr>value = ''d'', seq = 4\<rparr>, \<lparr>value = ''e'', seq = 5\<rparr>]"
    by code_simp
  show ?thesis
  using all
    onPush_case_split
      [of "\<lparr>value = ''f'', seq = 6\<rparr>"
          "\<lparr>highest_seen = 3, buffer = [], state = [''a'', ''b'', ''c'']\<rparr>"
          "\<lambda>log x. log @ [x]" "''voxels''" "[]" 3]
    onPush_case_split
      [of "\<lparr>value = ''e'', seq = 5\<rparr>"
          "\<lparr>highest_seen = 4, buffer = [\<lparr>value = ''f'', seq = 6\<rparr>],
             state = [''a'', ''b'', ''c'', ''d'']\<rparr>"
          "\<lambda>log x. log @ [x]" "''voxels''" "[]" 4]
    onPush_case_split
      [of "\<lparr>value = ''b'', seq = 2\<rparr>"
          "\<lparr>highest_seen = 0, buffer = [], state = []\<rparr>"
          "\<lambda>log x. log @ [x]" "''voxels''"
          "[\<lparr>value = ''a'', seq = 1\<rparr>, \<lparr>value = ''b'', seq = 2\<rparr>, \<lparr>value = ''c'', seq = 3\<rparr>,
            \<lparr>value = ''f'', seq = 6\<rparr>, \<lparr>value = ''d'', seq = 4\<rparr>, \<lparr>value = ''e'', seq = 5\<rparr>]" 6]
    onPush_case_split
      [of "\<lparr>value = ''b'', seq = 2\<rparr>"
          "\<lparr>highest_seen = 3, buffer = [], state = [''a'', ''b'', ''c'']\<rparr>"
          "\<lambda>log x. log @ [x]" "''voxels''" "[]" 3]
  by (simp add: onPush_def)
qed

text \<open>
  C3: processing the same \<open>init\<close> backlog \<open>b\<close> twice leaves the stream as processing it
  once does, and the materialized state is the fold of the reducer over \<open>b\<close>, each entry
  once. When \<open>b\<close> is sorted by sequence number, delivering any of its entries again as a
  push, or all of them in order, is discarded: nothing is applied a second time.
\<close>

theorem onInit_idempotent:
  "onInit r s0 (onInit r s0 st b) b = onInit r s0 st b
   \<and> state (onInit r s0 (onInit r s0 st b) b) = foldl r s0 (map value b)
   \<and> (sorted (map seq b) \<longrightarrow>
        (\<forall>v\<in>set b. onPush r key (onInit r s0 st b) v = (onInit r s0 st b, []))
        \<and> onPushes r key (onInit r s0 st b) b = (onInit r s0 st b, []))"
proof -
  have i: "onInit r s0 (onInit r s0 st b) b = onInit r s0 st b"
    by (simp add: onInit_def)
  have s: "state (onInit r s0 (onInit r s0 st b) b) = foldl r s0 (map value b)"
    by (simp add: onInit_def)
  have p: "(\<forall>v\<in>set b. onPush r key (onInit r s0 st b) v = (onInit r s0 st b, []))
        \<and> onPushes r key (onInit r s0 st b) b = (onInit r s0 st b, [])"
    if srt: "sorted (map seq b)"
  proof -
    have le: "seq v \<le> highest_seen (onInit r s0 st b)" if "v \<in> set b" for v
      using seq_le_last [OF srt that] that by (auto simp: onInit_def)
    then show ?thesis
      by (simp add: onPush_stale onPushes_stale)
  qed
  from i s p show ?thesis
    by blast
qed

theorem onInit_idempotent_witness:
  "sorted (map seq [\<lparr>value = ''a'', seq = 1\<rparr>, \<lparr>value = ''b'', seq = 2\<rparr>])
   \<and> onInit (\<lambda>log x. log @ [x]) []
        (onInit (\<lambda>log x. log @ [x]) [] \<lparr>highest_seen = 0, buffer = [], state = []\<rparr>
           [\<lparr>value = ''a'', seq = 1\<rparr>, \<lparr>value = ''b'', seq = 2\<rparr>])
        [\<lparr>value = ''a'', seq = 1\<rparr>, \<lparr>value = ''b'', seq = 2\<rparr>]
      = \<lparr>highest_seen = 2, buffer = [], state = [''a'', ''b'']\<rparr>
   \<and> onInit (\<lambda>log x. log @ [x]) [] \<lparr>highest_seen = 0, buffer = [], state = []\<rparr>
        [\<lparr>value = ''a'', seq = 1\<rparr>, \<lparr>value = ''b'', seq = 2\<rparr>]
      = \<lparr>highest_seen = 2, buffer = [], state = [''a'', ''b'']\<rparr>
   \<and> onPushes (\<lambda>log x. log @ [x]) ''voxels''
        (onInit (\<lambda>log x. log @ [x]) [] \<lparr>highest_seen = 0, buffer = [], state = []\<rparr>
           [\<lparr>value = ''a'', seq = 1\<rparr>, \<lparr>value = ''b'', seq = 2\<rparr>])
        [\<lparr>value = ''a'', seq = 1\<rparr>, \<lparr>value = ''b'', seq = 2\<rparr>]
      = (\<lparr>highest_seen = 2, buffer = [], state = [''a'', ''b'']\<rparr>, [])"
  using
    onInit_idempotent
      [of "\<lambda>log x. log @ [x]" "[]" "\<lparr>highest_seen = 0, buffer = [], state = []\<rparr>"
          "[\<lparr>value = ''a'', seq = 1\<rparr>, \<lparr>value = ''b'', seq = 2\<rparr>]" "''voxels''"]
  by (simp add: onInit_def onPush_def)

text \<open>
  C4: a message from the server is exactly one of four variants, told apart by its
  \<open>type\<close>: \<open>push\<close> with a key and a value of shape \<open>{value, seq}\<close>; \<open>init\<close> with a key and
  data, a list of values of that shape; \<open>error\<close> with a message string; \<open>stream_size\<close>
  with a key and a size. Exactly one of the four tags is that of the message.
\<close>

theorem MessageFromDb_variants:
  "((\<exists>k v. m = PushFrom k v \<and> from_type m = ''push''
        \<and> from_fields m = [''type'', ''key'', ''value''] \<and> v = \<lparr>value = value v, seq = seq v\<rparr>)
    \<or> (\<exists>d k. m = InitFrom d k \<and> from_type m = ''init''
        \<and> from_fields m = [''type'', ''data'', ''key'']
        \<and> d = map (\<lambda>v. \<lparr>value = value v, seq = seq v\<rparr>) d)
    \<or> (\<exists>msg. m = ErrorFrom msg \<and> from_type m = ''error'' \<and> from_fields m = [''type'', ''message''])
    \<or> (\<exists>k n. m = StreamSize k n \<and> from_type m = ''stream_size''
        \<and> from_fields m = [''type'', ''key'', ''size'']))
   \<and> filter (\<lambda>t. from_type m = t) [''push'', ''init'', ''error'', ''stream_size''] = [from_type m]"
proof -
  have "(\<lambda>v :: 'a SequenceValue. \<lparr>value = value v, seq = seq v\<rparr>) = (\<lambda>v. v)"
    by (rule ext) simp
  then have "map (\<lambda>v :: 'a SequenceValue. \<lparr>value = value v, seq = seq v\<rparr>) d = d" for d
    by simp
  then show ?thesis
    by (cases m) simp_all
qed



text \<open>
  C6: a connection status is exactly one of two shapes: \<open>{connected: false}\<close> with no
  other field, or \<open>{connected: true, debugUrl}\<close> with \<open>debugUrl\<close> a string.
\<close>

theorem ConnectionStatus_shapes:
  "(s = Disconnected \<and> connected s = False \<and> debugUrl s = None
      \<and> status_fields s = [''connected''])
   \<or> (\<exists>u. s = Connected u \<and> connected s = True \<and> debugUrl s = Some u
      \<and> status_fields s = [''connected'', ''debugUrl''])"
  by (cases s) simp_all

text \<open>
  C7: \<open>voxelReducer\<close> is a pure function of its two arguments. Run in two stores on two
  state references whose objects have equal contents, with the same action, it returns
  references to objects of equal contents; these contents are the value \<open>voxelReducer\<close>
  computes from the contents of the state and the action alone; and every object that
  was in either store, the state passed in among them, is left as it was.
\<close>

theorem voxelReducer_pure:
  assumes "p1 < length h1" and "p2 < length h2" and "h1 ! p1 = h2 ! p2"
  shows "fst (voxelReducer_store h1 p1 a) ! snd (voxelReducer_store h1 p1 a)
           = fst (voxelReducer_store h2 p2 a) ! snd (voxelReducer_store h2 p2 a)
       \<and> fst (voxelReducer_store h1 p1 a) ! snd (voxelReducer_store h1 p1 a)
           = voxelReducer (h1 ! p1) a
       \<and> take (length h1) (fst (voxelReducer_store h1 p1 a)) = h1
       \<and> take (length h2) (fst (voxelReducer_store h2 p2 a)) = h2"
  using assms by (simp add: voxelReducer_store_result voxelReducer_store_frame)

theorem voxelReducer_pure_witness:
  "(0::nat) < length [[] :: string VoxelState]
   \<and> (1::nat) < length [[(''0:0:0'', \<lparr>position = (0, 0, 0), color = ''red'', opacity = 1\<rparr>)], []]
   \<and> [[] :: string VoxelState] ! 0
       = [[(''0:0:0'', \<lparr>position = (0, 0, 0), color = ''red'', opacity = 1\<rparr>)], []] ! 1
   \<and> fst (voxelReducer_store [[]] 0 (Remove ''0:0:0'')) ! snd (voxelReducer_store [[]] 0 (Remove ''0:0:0''))
       = fst (voxelReducer_store
               [[(''0:0:0'', \<lparr>position = (0, 0, 0), color = ''red'', opacity = 1\<rparr>)], []] 1
               (Remove ''0:0:0''))
         ! snd (voxelReducer_store
               [[(''0:0:0'', \<lparr>position = (0, 0, 0), color = ''red'', opacity = 1\<rparr>)], []] 1
               (Remove ''0:0:0''))
   \<and> take 2 (fst (voxelReducer_store
               [[(''0:0:0'', \<lparr>position = (0, 0, 0), color = ''red'', opacity = 1\<rparr>)], []] 1
               (Remove ''0:0:0'')))
       = [[(''0:0:0'', \<lparr>position = (0, 0, 0), color = ''red'', opacity = 1\<rparr>)], []]"
  using voxelReducer_pure
    [of 0 "[[] :: string VoxelState]" 1
        "[[(''0:0:0'', \<lparr>position = (0, 0, 0), color = ''red'', opacity = 1\<rparr>)], []]"
        "Remove ''0:0:0''"]
  by (simp add: alloc_def)

text \<open>
  C8: adding a voxel at an occupied position overwrites. When \<open>v1\<close> and \<open>v2\<close> have the
  same position, adding \<open>v1\<close> and then \<open>v2\<close> gives the state that adding \<open>v2\<close> alone gives,
  keys in the same order; and adding \<open>v2\<close> twice is adding it once.
\<close>

theorem add_overwrites:
  assumes "position v1 = position v2"
  shows "voxelReducer (voxelReducer s (Add v1)) (Add v2) = voxelReducer s (Add v2)
       \<and> voxelReducer (voxelReducer s (Add v2)) (Add v2) = voxelReducer s (Add v2)"
  using assms by simp

theorem add_overwrites_witness:
  "position \<lparr>position = (1, 2, 3), color = ''red'', opacity = 1\<rparr>
     = position \<lparr>position = (1, 2, 3), color = ''blue'', opacity = 1\<rparr>
   \<and> voxelReducer
       (voxelReducer [(''0:0:0'', \<lparr>position = (0, 0, 0), color = ''red'', opacity = 1\<rparr>)]
          (Add \<lparr>position = (1, 2, 3), color = ''red'', opacity = 1\<rparr>))
       (Add \<lparr>position = (1, 2, 3), color = ''blue'', opacity = 1\<rparr>)
     = [(''0:0:0'', \<lparr>position = (0, 0, 0), color = ''red'', opacity = 1\<rparr>),
        (''1:2:3'', \<lparr>position = (1, 2, 3), color = ''blue'', opacity = 1\<rparr>)]"
proof -
  have k: "position_key (1, 2, 3) = ''1:2:3''"
    by code_simp
  have h: "position \<lparr>position = (1, 2, 3), color = ''red'', opacity = 1\<rparr>
     = position \<lparr>position = (1, 2, 3), color = ''blue'', opacity = 1\<rparr>"
    by simp
  from add_overwrites [OF h, of "[(''0:0:0'', \<lparr>position = (0, 0, 0), color = ''red'', opacity = 1\<rparr>)]"]
  show ?thesis
    by (simp add: k)
qed

text \<open>
  C9: a \<open>remove\<close> touches the named entry only. The result has no entry for \<open>n\<close>, maps
  every other key to the voxel it had, keeps the remaining entries in their order, and
  is the state itself when \<open>n\<close> was not a key of it.
\<close>

theorem remove_frame:
  "n \<notin> fst ` set (voxelReducer s (Remove n))
   \<and> map_of (voxelReducer s (Remove n)) n = None
   \<and> (\<forall>k. k \<noteq> n \<longrightarrow> map_of (voxelReducer s (Remove n)) k = map_of s k)
   \<and> voxelReducer s (Remove n) = filter (\<lambda>e. fst e \<noteq> n) s
   \<and> (n \<notin> fst ` set s \<longrightarrow> voxelReducer s (Remove n) = s)"
proof -
  have "n \<notin> fst ` set (AList.delete n s)"
    by (rule AList.delete_notin_dom)
  moreover have "map_of (AList.delete n s) n = None"
    by (simp add: AList.delete_conv')
  moreover have "AList.delete n s = filter (\<lambda>e. fst e \<noteq> n) s"
    by (induction s) auto
  moreover have "\<forall>k. k \<noteq> n \<longrightarrow> map_of (AList.delete n s) k = map_of s k"
    by simp
  moreover have "n \<notin> fst ` set s \<longrightarrow> AList.delete n s = s"
    by simp
  ultimately show ?thesis
    unfolding voxelReducer.simps by blast
qed

theorem remove_frame_witness:
  "''0:0:0'' \<noteq> ''1:2:3''
   \<and> map_of (voxelReducer
        [(''0:0:0'', \<lparr>position = (0, 0, 0), color = ''red'', opacity = 1\<rparr>),
         (''1:2:3'', \<lparr>position = (1, 2, 3), color = ''blue'', opacity = 1\<rparr>)]
        (Remove ''1:2:3'')) ''0:0:0''
      = Some \<lparr>position = (0, 0, 0), color = ''red'', opacity = 1\<rparr>
   \<and> voxelReducer
        [(''0:0:0'', \<lparr>position = (0, 0, 0), color = ''red'', opacity = 1\<rparr>),
         (''1:2:3'', \<lparr>position = (1, 2, 3), color = ''blue'', opacity = 1\<rparr>)]
        (Remove ''1:2:3'')
      = [(''0:0:0'', \<lparr>position = (0, 0, 0), color = ''red'', opacity = 1\<rparr>)]
   \<and> ''9:9:9'' \<notin> fst ` set [(''0:0:0'', \<lparr>position = (0, 0, 0), color = ''red'', opacity = 1\<rparr>)]
   \<and> voxelReducer [(''0:0:0'', \<lparr>position = (0, 0, 0), color = ''red'', opacity = 1\<rparr>)]
        (Remove ''9:9:9'')
      = [(''0:0:0'', \<lparr>position = (0, 0, 0), color = ''red'', opacity = 1\<rparr>)]"
  using remove_frame
    [of "''1:2:3''"
        "[(''0:0:0'', \<lparr>position = (0, 0, 0), color = ''red'', opacity = 1\<rparr>),
          (''1:2:3'', \<lparr>position = (1, 2, 3), color = ''blue'', opacity = 1\<rparr>)]"]
    remove_frame
    [of "''9:9:9''" "[(''0:0:0'', \<lparr>position = (0, 0, 0), color = ''red'', opacity = 1\<rparr>)]"]
  by simp

text \<open>
  C10: when the key of \<open>v\<close>'s position is not in the state \<open>s\<close>, adding \<open>v\<close> and then
  removing that key gives \<open>s\<close> back.
\<close>

theorem add_remove_roundtrip:
  assumes "position_key (position v) \<notin> fst ` set s"
  shows "voxelReducer (voxelReducer s (Add v)) (Remove (position_key (position v))) = s"
  using assms by (simp add: AList.delete_update_same)

theorem add_remove_roundtrip_witness:
  "position_key (position \<lparr>position = (1, 2, 3), color = ''blue'', opacity = 1\<rparr>)
     \<notin> fst ` set [(''0:0:0'', \<lparr>position = (0, 0, 0), color = ''red'', opacity = 1\<rparr>)]
   \<and> voxelReducer
        (voxelReducer [(''0:0:0'', \<lparr>position = (0, 0, 0), color = ''red'', opacity = 1\<rparr>)]
           (Add \<lparr>position = (1, 2, 3), color = ''blue'', opacity = 1\<rparr>))
        (Remove (position_key (position \<lparr>position = (1, 2, 3), color = ''blue'', opacity = 1\<rparr>)))
      = [(''0:0:0'', \<lparr>position = (0, 0, 0), color = ''red'', opacity = 1\<rparr>)]"
proof -
  have k: "position_key (1, 2, 3) = ''1:2:3''"
    by code_simp
  have h: "position_key (position \<lparr>position = (1, 2, 3), color = ''blue'', opacity = 1\<rparr>)
     \<notin> fst ` set [(''0:0:0'', \<lparr>position = (0, 0, 0), color = ''red'', opacity = 1\<rparr>)]"
    by (simp add: k)
  from add_remove_roundtrip [OF h] h show ?thesis
    by blast
qed

end
